theory Spec2Isabelle
  imports
    Complex_Main
    "HOL-Library.Multiset"
    "HOL-Library.Char_ord"
    "HOL-Library.List_Lexorder"
    "HOL-Library.Product_Lexorder"
    "HOL-Library.AList"
    "HOL-Library.Log_Nat"
begin

section \<open>Data model of checkbook.py\<close>

text \<open>
  A transaction is the JSON object the program keeps per entry. The keys
  \<open>cleared\<close> and \<open>deleted\<close> are only ever read through their truth value
  (\<open>t.get("cleared")\<close>), so they are booleans here; \<open>category\<close> may be absent or
  \<open>None\<close>. The key \<open>amount\<close> is only ever read as \<open>Decimal(str(t["amount"]))\<close>,
  which converts the text exactly, whatever its number of digits: the field
  holds the rational number that this \<open>Decimal\<close> denotes. Amount texts on which
  \<open>Decimal\<close> raises, and the texts of \<open>NaN\<close> and the infinities, are outside this
  model.
\<close>

record txn =
  date :: string
  description :: string
  category :: "string option"
  amount :: rat
  cleared :: bool
  deleted :: bool

text \<open>
  The account is the JSON document. Both of its keys may be absent
  (\<open>None\<close>): the ledger reads them with \<open>account.get(key, default)\<close>.
\<close>

record account =
  acct_initial_balance :: "rat option"
  acct_transactions :: "txn list option"

text \<open>\<open>account.get("transactions", [])\<close> and \<open>account.get("initial_balance", "0.00")\<close>.\<close>

definition get_transactions :: "account \<Rightarrow> txn list" where
  "get_transactions a = (case acct_transactions a of None \<Rightarrow> [] | Some ts \<Rightarrow> ts)"

definition get_initial_balance :: "account \<Rightarrow> rat" where
  "get_initial_balance a = (case acct_initial_balance a of None \<Rightarrow> 0 | Some b \<Rightarrow> b)"

text \<open>
  The ledger's list \<open>self.transactions\<close> holds references to the very objects
  of the account's list: marking one deleted, or editing it, is seen through
  both lists. The account's list is the store, and a reference is the position
  of the object in that list (the program only ever appends to it, and every
  caller appends a freshly built object). \<open>self.initial_balance\<close> is a copy made
  at construction.
\<close>

record ledger =
  account :: account
  transactions :: "nat list"
  initial_balance :: rat

datatype error = IndexError

definition deref :: "ledger \<Rightarrow> nat \<Rightarrow> txn" where
  "deref l r = get_transactions (account l) ! r"

text \<open>
  Python's \<open>xs[i]\<close> and \<open>xs.pop(i)\<close> on a list of \<open>n\<close> elements: an index from
  \<open>0\<close> to \<open>n - 1\<close> is a position, an index from \<open>- n\<close> to \<open>- 1\<close> counts from the
  end, and any other index raises \<open>IndexError\<close>.
\<close>

definition position :: "nat \<Rightarrow> int \<Rightarrow> nat option" where
  "position n i =
     (if 0 \<le> i \<and> i < int n then Some (nat i)
      else if - int n \<le> i \<and> i < 0 then Some (nat (int n + i))
      else None)"

definition py_index :: "'a list \<Rightarrow> int \<Rightarrow> error + 'a" where
  "py_index xs i =
     (case position (length xs) i of None \<Rightarrow> Inl IndexError | Some k \<Rightarrow> Inr (xs ! k))"

definition py_pop :: "'a list \<Rightarrow> int \<Rightarrow> error + 'a list" where
  "py_pop xs i =
     (case position (length xs) i of
        None \<Rightarrow> Inl IndexError
      | Some k \<Rightarrow> Inr (take k xs @ drop (Suc k) xs))"

section \<open>Decimal arithmetic\<close>









section \<open>class Ledger\<close>

text \<open>\<open>__init__\<close>: the references to the objects that are not marked deleted, in stored order.\<close>

definition Ledger :: "account \<Rightarrow> ledger" where
  "Ledger acct =
     \<lparr>account = acct,
      transactions = filter (\<lambda>r. \<not> deleted (get_transactions acct ! r))
                       [0..<length (get_transactions acct)],
      initial_balance = get_initial_balance acct\<rparr>"






text \<open>
  \<open>add_transaction\<close>: \<open>setdefault\<close> creates the account's list when the key is
  absent; the new object goes to the end of both lists.
\<close>

definition add_transaction :: "ledger \<Rightarrow> txn \<Rightarrow> ledger" where
  "add_transaction l t =
     l\<lparr>account := (account l)\<lparr>acct_transactions := Some (get_transactions (account l) @ [t])\<rparr>,
       transactions := transactions l @ [length (get_transactions (account l))]\<rparr>"

text \<open>
  Assigning to a key of an object changes the object in the store, whoever
  holds a reference to it.

  \<open>delete_transaction\<close>: the index expression raises first when the index is
  out of range; otherwise the object is marked in place and the reference is
  popped from the ledger's list.
\<close>

definition update_obj :: "account \<Rightarrow> nat \<Rightarrow> (txn \<Rightarrow> txn) \<Rightarrow> account" where
  "update_obj a r f =
     a\<lparr>acct_transactions := map_option (\<lambda>ts. ts[r := f (ts ! r)]) (acct_transactions a)\<rparr>"

definition mark_deleted :: "account \<Rightarrow> nat \<Rightarrow> account" where
  "mark_deleted a r = update_obj a r (\<lambda>t. t\<lparr>deleted := True\<rparr>)"

definition delete_transaction :: "ledger \<Rightarrow> int \<Rightarrow> error + ledger" where
  "delete_transaction l idx =
     (case py_index (transactions l) idx of
        Inl e \<Rightarrow> Inl e
      | Inr r \<Rightarrow>
          (case py_pop (transactions l) idx of
             Inl e \<Rightarrow> Inl e
           | Inr rs \<Rightarrow> Inr (l\<lparr>account := mark_deleted (account l) r, transactions := rs\<rparr>)))"

section \<open>Utilities\<close>

text \<open>
  \<open>str.strip()\<close> removes leading and trailing whitespace. A character is a
  code point of the text, and the type holds the code points below 256. The
  whitespace among them is tab to carriage return, the four separators 28 to
  31, the space, the next-line control 133 and the no-break space 160.
\<close>

definition is_space :: "char \<Rightarrow> bool" where
  "is_space c \<longleftrightarrow>
     (let k = (of_char c :: nat)
      in (9 \<le> k \<and> k \<le> 13) \<or> (28 \<le> k \<and> k \<le> 32) \<or> k = 133 \<or> k = 160)"

definition strip :: "string \<Rightarrow> string" where
  "strip s = rev (dropWhile is_space (rev (dropWhile is_space s)))"

text \<open>\<open>today_if_dot\<close>; the module constant \<open>TODAY\<close> is the parameter \<open>today\<close>.\<close>

definition today_if_dot :: "string \<Rightarrow> string \<Rightarrow> string" where
  "today_if_dot today s = (if strip s = ''.'' then today else strip s)"

section \<open>Category report\<close>

text \<open>
  \<open>if start and ...\<close>: a bound that is \<open>None\<close> or the empty text is false and
  filters nothing.
\<close>

definition truthy :: "string option \<Rightarrow> bool" where
  "truthy b = (case b of None \<Rightarrow> False | Some s \<Rightarrow> s \<noteq> [])"







section \<open>The interactive session\<close>

text \<open>
  The variables of \<open>launch_tui\<close> that its nested functions share. \<open>acct\<close> is
  the account of \<open>ledger\<close>, and \<open>txns\<close> is the very list \<open>ledger.transactions\<close>.
\<close>

record session =
  ledger :: ledger
  idx :: int
  scroll :: int
  bank_balance :: "rat option"
  last_search :: "string option"

definition txns :: "session \<Rightarrow> nat list" where
  "txns st = transactions (ledger st)"

definition idx_set :: "int \<Rightarrow> session \<Rightarrow> session" where
  "idx_set new_idx st = st\<lparr>idx := new_idx, scroll := new_idx\<rparr>"

text \<open>\<open>range(a, b)\<close> and \<open>range(a, b, -1)\<close>.\<close>

definition py_range :: "int \<Rightarrow> int \<Rightarrow> int list" where
  "py_range a b = [a..b - 1]"

definition py_range_down :: "int \<Rightarrow> int \<Rightarrow> int list" where
  "py_range_down a b = rev [b + 1..a]"

text \<open>
  One \<open>for\<close> loop of the two jump commands: the first index of the range
  whose transaction is not cleared, if any; \<open>txns[i]\<close> may raise.
\<close>

fun first_uncleared :: "ledger \<Rightarrow> int list \<Rightarrow> error + int option" where
  "first_uncleared l [] = Inr None"
| "first_uncleared l (i # is) =
     (case py_index (transactions l) i of
        Inl e \<Rightarrow> Inl e
      | Inr r \<Rightarrow> if \<not> cleared (deref l r) then Inr (Some i) else first_uncleared l is)"

definition jump_next_uncleared :: "session \<Rightarrow> error + session" where
  "jump_next_uncleared st =
     (case first_uncleared (ledger st) (py_range (idx st + 1) (int (length (txns st)))) of
        Inl e \<Rightarrow> Inl e
      | Inr (Some i) \<Rightarrow> Inr (idx_set i st)
      | Inr None \<Rightarrow>
          (case first_uncleared (ledger st) (py_range 0 (idx st + 1)) of
             Inl e \<Rightarrow> Inl e
           | Inr (Some i) \<Rightarrow> Inr (idx_set i st)
           | Inr None \<Rightarrow> Inr st))"

definition jump_prev_uncleared :: "session \<Rightarrow> error + session" where
  "jump_prev_uncleared st =
     (case first_uncleared (ledger st) (py_range_down (idx st - 1) (- 1)) of
        Inl e \<Rightarrow> Inl e
      | Inr (Some i) \<Rightarrow> Inr (idx_set i st)
      | Inr None \<Rightarrow>
          (case first_uncleared (ledger st)
                  (py_range_down (int (length (txns st)) - 1) (idx st - 1)) of
             Inl e \<Rightarrow> Inl e
           | Inr (Some i) \<Rightarrow> Inr (idx_set i st)
           | Inr None \<Rightarrow> Inr st))"

text \<open>
  \<open>find_next\<close>: the \<open>while True\<close> loop over \<open>start\<close> and \<open>wrapped\<close>. The test
  \<open>search.lower() in json.dumps(txns[start]).lower()\<close> is the parameter \<open>hit\<close>, a
  predicate on the transaction. The loop ends by \<open>break\<close> or by the exception of
  \<open>txns[start]\<close>.
\<close>

function find_loop :: "(txn \<Rightarrow> bool) \<Rightarrow> session \<Rightarrow> int \<Rightarrow> bool \<Rightarrow> error + session" where
  "find_loop hit st start wrapped =
     (if start \<ge> int (length (txns st)) then
        (if wrapped then Inr st
         else (case py_index (txns st) 0 of
                 Inl e \<Rightarrow> Inl e
               | Inr r \<Rightarrow> if hit (deref (ledger st) r) then Inr (idx_set 0 st)
                          else find_loop hit st (0 + 1) True))
      else (case py_index (txns st) start of
              Inl e \<Rightarrow> Inl e
            | Inr r \<Rightarrow> if hit (deref (ledger st) r) then Inr (idx_set start st)
                       else find_loop hit st (start + 1) wrapped))"
  by pat_completeness auto
termination
  by (relation "measure (\<lambda>(hit, st, start, wrapped).
        nat (int (length (txns st)) - start) + (if wrapped then 0 else length (txns st) + 1))")
     auto

declare find_loop.simps [simp del]

definition find_next :: "(string \<Rightarrow> txn \<Rightarrow> bool) \<Rightarrow> string \<Rightarrow> session \<Rightarrow> error + session" where
  "find_next contains search st = find_loop (contains search) st (idx st + 1) False"

text \<open>
  \<open>edit_transaction\<close>: one prompt per field, in this order. The responses are
  the texts the user types; \<open>Decimal\<close>, which later reads the amount text, is the
  parameter \<open>dec\<close>.
\<close>

datatype field = Date | Description | Category | Amount

definition edit_field :: "string \<Rightarrow> (string \<Rightarrow> rat) \<Rightarrow> field \<Rightarrow> string \<Rightarrow> txn \<Rightarrow> txn" where
  "edit_field today dec f s t =
     (if s \<noteq> [] then
        (case f of
           Date \<Rightarrow> t\<lparr>date := today_if_dot today s\<rparr>
         | Category \<Rightarrow> t\<lparr>category := (if s = '' '' then None else Some s)\<rparr>
         | Description \<Rightarrow> t\<lparr>description := s\<rparr>
         | Amount \<Rightarrow> t\<lparr>amount := dec s\<rparr>)
      else t)"

definition edit_transaction :: "string \<Rightarrow> (string \<Rightarrow> rat) \<Rightarrow> string list \<Rightarrow> txn \<Rightarrow> txn" where
  "edit_transaction today dec responses t =
     foldl (\<lambda>t (f, response). edit_field today dec f (strip response) t) t
       (zip [Date, Description, Category, Amount] responses)"

text \<open>\<open>add_transaction_tui\<close>: five prompts; \<open>cat or None\<close>; \<open>.lower().startswith("y")\<close>.\<close>

definition add_transaction_tui :: "string \<Rightarrow> (string \<Rightarrow> rat) \<Rightarrow> (nat \<Rightarrow> string) \<Rightarrow> session \<Rightarrow> session" where
  "add_transaction_tui today dec resp st =
     st\<lparr>ledger := add_transaction (ledger st)
        \<lparr>date = today_if_dot today (resp 0),
         description = resp 1,
         category = (if resp 2 = [] then None else Some (resp 2)),
         amount = dec (resp 3),
         cleared = (case resp 4 of [] \<Rightarrow> False | c # _ \<Rightarrow> c = CHR ''y'' \<or> c = CHR ''Y''),
         deleted = False\<rparr>\<rparr>"

text \<open>
  One pass of the loop of \<open>curses_main\<close> after the key \<open>ch\<close> is read: the
  \<open>if\<close>/\<open>elif\<close> chain, in its order. \<open>resp k\<close> is the response to the
  \<open>k\<close>-th prompt of the command. \<open>q\<close> saves the account and leaves the loop.
  Drawing the screen, which also moves \<open>scroll\<close> so that the cursor's row is
  shown, is not part of it.
\<close>

datatype outcome = Continue session | Quit account

definition ord :: "char \<Rightarrow> int" where
  "ord c = of_char c"

definition KEY_DOWN :: int where "KEY_DOWN = 258"
definition KEY_UP :: int where "KEY_UP = 259"

definition with_txn :: "session \<Rightarrow> (txn \<Rightarrow> txn) \<Rightarrow> error + outcome" where
  "with_txn st f =
     (case py_index (txns st) (idx st) of
        Inl e \<Rightarrow> Inl e
      | Inr r \<Rightarrow> Inr (Continue (st\<lparr>ledger := (ledger st)\<lparr>account := update_obj (account (ledger st)) r f\<rparr>\<rparr>)))"

definition continue :: "error + session \<Rightarrow> error + outcome" where
  "continue x = (case x of Inl e \<Rightarrow> Inl e | Inr st \<Rightarrow> Inr (Continue st))"

definition curses_main ::
  "string \<Rightarrow> (string \<Rightarrow> rat) \<Rightarrow> (string \<Rightarrow> txn \<Rightarrow> bool) \<Rightarrow> (nat \<Rightarrow> string) \<Rightarrow> int \<Rightarrow> session
     \<Rightarrow> error + outcome" where
  "curses_main today dec contains resp ch st =
     (if ch = ord CHR ''q'' then Inr (Quit (account (ledger st)))
      else if (ch = KEY_DOWN \<or> ch = ord CHR ''j'') \<and> idx st < int (length (txns st)) - 1
        then Inr (Continue (st\<lparr>idx := idx st + 1\<rparr>))
      else if (ch = KEY_UP \<or> ch = ord CHR ''k'') \<and> idx st > 0
        then Inr (Continue (st\<lparr>idx := idx st - 1\<rparr>))
      else if ch = ord CHR ''t'' then Inr (Continue (st\<lparr>idx := 0\<rparr>))
      else if ch = ord CHR ''b'' then Inr (Continue (st\<lparr>idx := int (length (txns st)) - 1\<rparr>))
      else if ch = ord CHR '' '' then with_txn st (\<lambda>t. t\<lparr>cleared := \<not> cleared t\<rparr>)
      else if ch = ord CHR ''r'' then
        Inr (Continue (if strip (resp 0) \<noteq> [] then st\<lparr>bank_balance := Some (dec (strip (resp 0)))\<rparr>
                       else st))
      else if ch = ord CHR ''e'' then with_txn st (edit_transaction today dec (map resp [0..<4]))
      else if ch = ord CHR ''d'' then
        (case delete_transaction (ledger st) (idx st) of
           Inl e \<Rightarrow> Inl e
         | Inr l \<Rightarrow> Inr (Continue (st\<lparr>ledger := l, idx := max 0 (idx st - 1)\<rparr>)))
      else if ch = ord CHR ''a'' then Inr (Continue (add_transaction_tui today dec resp st))
      else if ch = ord CHR ''n'' then continue (jump_next_uncleared st)
      else if ch = ord CHR ''N'' then continue (jump_prev_uncleared st)
      else if ch = ord CHR ''F'' then
        continue (find_next contains (resp 0) (st\<lparr>last_search := Some (resp 0)\<rparr>))
      else if ch = ord CHR ''f'' \<and> truthy (last_search st) then
        continue (find_next contains (the (last_search st)) st)
      else Inr (Continue st))"

section \<open>The ledger and its account\<close>

text \<open>
  The relation between the two lists that \<open>__init__\<close> establishes: the ledger
  shows exactly the stored objects that are not marked deleted, in stored
  order, and carries the account's initial balance.
\<close>

definition ledger_inv :: "ledger \<Rightarrow> bool" where
  "ledger_inv l \<longleftrightarrow>
     transactions l = filter (\<lambda>r. \<not> deleted (get_transactions (account l) ! r))
                        [0..<length (get_transactions (account l))]
     \<and> initial_balance l = get_initial_balance (account l)"



section \<open>A sample account\<close>

text \<open>
  Initial balance 100.00; a debit of 20.00 and one of 5.00 that have not
  cleared, a cleared credit of 50.00, and a voided entry of 7.00 that is marked
  deleted.
\<close>

definition sample_account :: account where
  "sample_account =
     \<lparr>acct_initial_balance = Some 100,
      acct_transactions = Some
        [\<lparr>date = ''2024-01-02'', description = ''rent'', category = Some ''Home'',
           amount = - 20, cleared = False, deleted = False\<rparr>,
         \<lparr>date = ''2024-01-03'', description = ''void'', category = None,
           amount = 7, cleared = False, deleted = True\<rparr>,
         \<lparr>date = ''2024-01-05'', description = ''pay'', category = Some ''Job'',
           amount = 50, cleared = True, deleted = False\<rparr>,
         \<lparr>date = ''2024-01-09'', description = ''tea'', category = None,
           amount = - 5, cleared = False, deleted = False\<rparr>]\<rparr>"


text \<open>A session over the sample account, the cursor on the last row.\<close>

definition sample_session :: session where
  "sample_session =
     \<lparr>ledger = Ledger sample_account, idx = 2, scroll = 0,
      bank_balance = None, last_search = None\<rparr>"

text \<open>A session over a new account, which has no transaction yet.\<close>

definition empty_session :: session where
  "empty_session =
     \<lparr>ledger = Ledger \<lparr>acct_initial_balance = Some 0, acct_transactions = Some []\<rparr>,
      idx = 0, scroll = 0, bank_balance = None, last_search = None\<rparr>"





section \<open>Basic facts\<close>

lemma ledger_inv_Ledger: "ledger_inv (Ledger acct)"
  by (simp add: ledger_inv_def Ledger_def)



lemma refs_in_store:
  assumes "ledger_inv l" and "r \<in> set (transactions l)"
  shows "r < length (get_transactions (account l))"
proof -
  from assms(1) have "transactions l = filter (\<lambda>r. \<not> deleted (get_transactions (account l) ! r))
                        [0..<length (get_transactions (account l))]"
    by (simp add: ledger_inv_def)
  with assms(2) have "r \<in> set [0..<length (get_transactions (account l))]"
    by (metis filter_is_subset subsetD)
  then show ?thesis by simp
qed

lemma store_add_transaction:
  "get_transactions (account (add_transaction l t)) = get_transactions (account l) @ [t]"
  by (simp add: add_transaction_def get_transactions_def)

lemma transactions_add_transaction:
  "transactions (add_transaction l t) = transactions l @ [length (get_transactions (account l))]"
  by (simp add: add_transaction_def)




lemma ledger_inv_add_transaction:
  assumes "ledger_inv l" and "\<not> deleted t"
  shows "ledger_inv (add_transaction l t)"
proof -
  let ?s = "get_transactions (account l)"
  have "filter (\<lambda>r. \<not> deleted ((?s @ [t]) ! r)) [0..<length ?s]
        = filter (\<lambda>r. \<not> deleted (?s ! r)) [0..<length ?s]"
    by (rule filter_cong [OF refl]) (simp add: nth_append)
  moreover have "get_initial_balance (account (add_transaction l t)) = get_initial_balance (account l)"
    by (simp add: add_transaction_def get_initial_balance_def)
  moreover have "initial_balance (add_transaction l t) = initial_balance l"
    by (simp add: add_transaction_def)
  ultimately show ?thesis using assms
    by (simp add: ledger_inv_def store_add_transaction transactions_add_transaction)
qed

section \<open>Sums that the context does not round\<close>













































section \<open>Register balance\<close>






section \<open>Running balances\<close>




section \<open>Adding a transaction\<close>




section \<open>Reconciliation\<close>









section \<open>Deleting a transaction\<close>

lemma position_Some:
  "position n i = Some k \<longleftrightarrow>
     (0 \<le> i \<and> i < int n \<and> k = nat i) \<or> (- int n \<le> i \<and> i < 0 \<and> k = nat (int n + i))"
  by (auto simp: position_def)

lemma position_None: "position n i = None \<longleftrightarrow> i < - int n \<or> int n \<le> i"
  by (auto simp: position_def)

lemma position_less: "position n i = Some k \<Longrightarrow> k < n"
  by (auto simp: position_def split: if_splits)

lemma delete_transaction_at:
  assumes "position (length (transactions l)) i = Some k"
  shows "delete_transaction l i =
     Inr (l\<lparr>account := mark_deleted (account l) (transactions l ! k),
            transactions := take k (transactions l) @ drop (Suc k) (transactions l)\<rparr>)"
  using assms by (simp add: delete_transaction_def py_index_def py_pop_def)

lemma delete_transaction_raises:
  assumes "position (length (transactions l)) i = None"
  shows "delete_transaction l i = Inl IndexError"
  using assms by (simp add: delete_transaction_def py_index_def)

lemma store_update_obj:
  "get_transactions (update_obj a r f) = (get_transactions a)[r := f (get_transactions a ! r)]"
  by (cases "acct_transactions a") (simp_all add: update_obj_def get_transactions_def)

lemma initial_update_obj: "get_initial_balance (update_obj a r f) = get_initial_balance a"
  by (simp add: update_obj_def get_initial_balance_def)

lemma distinct_remove_nth:
  assumes "distinct xs" and "k < length xs"
  shows "filter (\<lambda>x. x \<noteq> xs ! k) xs = take k xs @ drop (Suc k) xs"
proof -
  have xs: "xs = take k xs @ xs ! k # drop (Suc k) xs"
    using assms(2) by (rule id_take_nth_drop)
  have d: "distinct (take k xs @ xs ! k # drop (Suc k) xs)"
    using assms(1) xs by simp
  then have a: "xs ! k \<notin> set (take k xs)" and b: "xs ! k \<notin> set (drop (Suc k) xs)"
    by auto
  have "filter (\<lambda>x. x \<noteq> xs ! k) (take k xs @ xs ! k # drop (Suc k) xs)
        = take k xs @ drop (Suc k) xs"
  proof -
    have "filter (\<lambda>x. x \<noteq> xs ! k) (take k xs) = take k xs"
      using a by (auto simp: filter_id_conv)
    moreover have "filter (\<lambda>x. x \<noteq> xs ! k) (drop (Suc k) xs) = drop (Suc k) xs"
      using b by (auto simp: filter_id_conv)
    ultimately show ?thesis by simp
  qed
  then show ?thesis using xs by simp
qed

lemma distinct_refs:
  assumes "ledger_inv l"
  shows "distinct (transactions l)"
proof -
  have "distinct (filter (\<lambda>r. \<not> deleted (get_transactions (account l) ! r))
                        [0..<length (get_transactions (account l))])"
    by simp
  then show ?thesis using assms by (simp add: ledger_inv_def)
qed

lemma ledger_inv_delete:
  assumes "ledger_inv l" and "k < length (transactions l)"
  shows "ledger_inv (l\<lparr>account := mark_deleted (account l) (transactions l ! k),
            transactions := take k (transactions l) @ drop (Suc k) (transactions l)\<rparr>)"
proof -
  let ?s = "get_transactions (account l)"
  let ?rs = "transactions l"
  let ?r = "?rs ! k"
  let ?s' = "?s[?r := (?s ! ?r)\<lparr>deleted := True\<rparr>]"
  have rs: "?rs = filter (\<lambda>i. \<not> deleted (?s ! i)) [0..<length ?s]"
    using assms(1) by (simp add: ledger_inv_def)
  have r: "?r < length ?s"
    using refs_in_store [OF assms(1)] assms(2) by simp
  have "filter (\<lambda>i. \<not> deleted (?s' ! i)) [0..<length ?s]
        = filter (\<lambda>i. i \<noteq> ?r \<and> \<not> deleted (?s ! i)) [0..<length ?s]"
    using r by (intro filter_cong [OF refl]) (auto simp: nth_list_update)
  also have "\<dots> = filter (\<lambda>i. i \<noteq> ?r) (filter (\<lambda>i. \<not> deleted (?s ! i)) [0..<length ?s])"
    by (simp add: conj_commute)
  finally have "filter (\<lambda>i. \<not> deleted (?s' ! i)) [0..<length ?s'] = filter (\<lambda>i. i \<noteq> ?r) ?rs"
    using rs by simp
  also have "\<dots> = take k ?rs @ drop (Suc k) ?rs"
    by (rule distinct_remove_nth [OF distinct_refs [OF assms(1)] assms(2)])
  finally show ?thesis using assms(1)
    by (simp add: ledger_inv_def mark_deleted_def store_update_obj initial_update_obj)
qed

lemma ledger_inv_update_obj:
  assumes "ledger_inv l" and "\<And>t. deleted (f t) = deleted t"
  shows "ledger_inv (l\<lparr>account := update_obj (account l) r f\<rparr>)"
proof -
  let ?s = "get_transactions (account l)"
  have "filter (\<lambda>i. \<not> deleted (?s[r := f (?s ! r)] ! i)) [0..<length ?s]
        = filter (\<lambda>i. \<not> deleted (?s ! i)) [0..<length ?s]"
  proof (rule filter_cong [OF refl])
    fix x assume "x \<in> set [0..<length ?s]"
    then have "x < length ?s" by simp
    then show "(\<not> deleted (?s[r := f (?s ! r)] ! x)) = (\<not> deleted (?s ! x))"
      by (cases "x = r") (simp_all add: assms(2))
  qed
  then show ?thesis using assms(1)
    by (simp add: ledger_inv_def store_update_obj initial_update_obj)
qed

lemma visible_delete:
  assumes "ledger_inv l" and "k < length (transactions l)"
  shows "map (deref (l\<lparr>account := mark_deleted (account l) (transactions l ! k),
            transactions := take k (transactions l) @ drop (Suc k) (transactions l)\<rparr>))
           (take k (transactions l) @ drop (Suc k) (transactions l))
         = take k (map (deref l) (transactions l)) @ drop (Suc k) (map (deref l) (transactions l))"
proof -
  let ?rs = "transactions l"
  let ?l' = "l\<lparr>account := mark_deleted (account l) (?rs ! k),
            transactions := take k ?rs @ drop (Suc k) ?rs\<rparr>"
  have "take k ?rs @ drop (Suc k) ?rs = filter (\<lambda>x. x \<noteq> ?rs ! k) ?rs"
    by (rule distinct_remove_nth [OF distinct_refs [OF assms(1)] assms(2), symmetric])
  then have ne: "x \<in> set (take k ?rs @ drop (Suc k) ?rs) \<Longrightarrow> x \<noteq> ?rs ! k" for x
    by simp
  have "map (deref ?l') (take k ?rs @ drop (Suc k) ?rs) = map (deref l) (take k ?rs @ drop (Suc k) ?rs)"
  proof (rule map_cong [OF refl])
    fix x assume "x \<in> set (take k ?rs @ drop (Suc k) ?rs)"
    then have "?rs ! k \<noteq> x" using ne by blast
    then show "deref ?l' x = deref l x"
      by (simp add: deref_def mark_deleted_def store_update_obj)
  qed
  then show ?thesis by (simp add: take_map drop_map)
qed

text \<open>
  C4, as the code has it. On a ledger that shows \<open>n\<close> transactions,
  \<open>delete_transaction\<close> accepts every index from \<open>- n\<close> to \<open>n - 1\<close>; a negative
  index counts from the end of the list, as list indexing does in Python. The
  transaction at that position is marked deleted in the account's list, which
  keeps its length and every other entry, and is removed from the ledger's
  list; the ledger again shows exactly the transactions not marked deleted.
  Every other index raises \<open>IndexError\<close>.
\<close>

theorem delete_transaction_spec:
  assumes "ledger_inv l"
  shows "(\<forall>k. (0 \<le> i \<and> i < int (length (transactions l)) \<and> k = nat i
              \<or> - int (length (transactions l)) \<le> i \<and> i < 0
                  \<and> k = nat (int (length (transactions l)) + i)) \<longrightarrow>
            (\<exists>l'. delete_transaction l i = Inr l'
               \<and> get_transactions (account l') =
                     (get_transactions (account l))
                       [transactions l ! k := (deref l (transactions l ! k))\<lparr>deleted := True\<rparr>]
               \<and> transactions l' = take k (transactions l) @ drop (Suc k) (transactions l)
               \<and> map (deref l') (transactions l') =
                     take k (map (deref l) (transactions l))
                       @ drop (Suc k) (map (deref l) (transactions l))
               \<and> ledger_inv l'))
       \<and> (i < - int (length (transactions l)) \<or> int (length (transactions l)) \<le> i \<longrightarrow>
            delete_transaction l i = Inl IndexError)"
proof (intro conjI allI impI)
  fix k
  assume "0 \<le> i \<and> i < int (length (transactions l)) \<and> k = nat i
          \<or> - int (length (transactions l)) \<le> i \<and> i < 0
              \<and> k = nat (int (length (transactions l)) + i)"
  then have p: "position (length (transactions l)) i = Some k"
    by (simp add: position_Some)
  then have k: "k < length (transactions l)"
    by (rule position_less)
  let ?l' = "l\<lparr>account := mark_deleted (account l) (transactions l ! k),
            transactions := take k (transactions l) @ drop (Suc k) (transactions l)\<rparr>"
  have "delete_transaction l i = Inr ?l'"
    by (rule delete_transaction_at [OF p])
  moreover have "get_transactions (account ?l') =
      (get_transactions (account l))
        [transactions l ! k := (deref l (transactions l ! k))\<lparr>deleted := True\<rparr>]"
    by (simp add: mark_deleted_def store_update_obj deref_def)
  moreover have "transactions ?l' = take k (transactions l) @ drop (Suc k) (transactions l)"
    by simp
  moreover have "map (deref ?l') (transactions ?l') =
      take k (map (deref l) (transactions l)) @ drop (Suc k) (map (deref l) (transactions l))"
    using visible_delete [OF assms k] by simp
  moreover have "ledger_inv ?l'"
    by (rule ledger_inv_delete [OF assms k])
  ultimately show "\<exists>l'. delete_transaction l i = Inr l'
               \<and> get_transactions (account l') =
                     (get_transactions (account l))
                       [transactions l ! k := (deref l (transactions l ! k))\<lparr>deleted := True\<rparr>]
               \<and> transactions l' = take k (transactions l) @ drop (Suc k) (transactions l)
               \<and> map (deref l') (transactions l') =
                     take k (map (deref l) (transactions l))
                       @ drop (Suc k) (map (deref l) (transactions l))
               \<and> ledger_inv l'"
    by blast
next
  assume "i < - int (length (transactions l)) \<or> int (length (transactions l)) \<le> i"
  then have "position (length (transactions l)) i = None"
    by (simp add: position_None)
  then show "delete_transaction l i = Inl IndexError"
    by (rule delete_transaction_raises)
qed

theorem delete_transaction_spec_witness:
  "ledger_inv (Ledger sample_account)
   \<and> (\<exists>l'. delete_transaction (Ledger sample_account) 1 = Inr l'
          \<and> transactions l' = [0, 3]
          \<and> deleted (get_transactions (account l') ! 2)
          \<and> length (get_transactions (account l')) = 4
          \<and> ledger_inv l')
   \<and> (\<exists>l'. delete_transaction (Ledger sample_account) (- 3) = Inr l'
          \<and> transactions l' = [2, 3])
   \<and> delete_transaction (Ledger sample_account) 3 = Inl IndexError"
proof -
  let ?L = "Ledger sample_account"
  have inv: "ledger_inv ?L" by (rule ledger_inv_Ledger)
  have t: "transactions ?L = [0, 2, 3]" by code_simp
  have n: "length (get_transactions (account ?L)) = 4" by code_simp
  from delete_transaction_spec [OF inv, of 1] t
  obtain l1 where l1: "delete_transaction ?L 1 = Inr l1"
    "get_transactions (account l1) =
       (get_transactions (account ?L))[2 := (deref ?L 2)\<lparr>deleted := True\<rparr>]"
    "transactions l1 = [0, 3]" "ledger_inv l1"
    by auto
  have a: "\<exists>l'. delete_transaction ?L 1 = Inr l'
          \<and> transactions l' = [0, 3]
          \<and> deleted (get_transactions (account l') ! 2)
          \<and> length (get_transactions (account l')) = 4
          \<and> ledger_inv l'"
    using l1 n by auto
  from delete_transaction_spec [OF inv, of "- 3"] t
  have b: "\<exists>l'. delete_transaction ?L (- 3) = Inr l' \<and> transactions l' = [2, 3]"
    by auto
  from delete_transaction_spec [OF inv, of 3] t
  have c: "delete_transaction ?L 3 = Inl IndexError" by simp
  from inv a b c show ?thesis by blast
qed

text \<open>
  The index \<open>- 1\<close> is not within \<open>0 \<le> index < n\<close>, and yet it raises nothing:
  it deletes the last transaction shown.
\<close>

theorem delete_transaction_negative_counterexample:
  "\<not> (0 \<le> (- 1 :: int))
   \<and> delete_transaction (Ledger sample_account) (- 1) \<noteq> Inl IndexError
   \<and> delete_transaction (Ledger sample_account) (- 1) =
       Inr ((Ledger sample_account)\<lparr>account := mark_deleted sample_account 3,
                                     transactions := [0, 2]\<rparr>)"
proof -
  have "delete_transaction (Ledger sample_account) (- 1) =
       Inr ((Ledger sample_account)\<lparr>account := mark_deleted sample_account 3,
                                     transactions := [0, 2]\<rparr>)"
    by code_simp
  then show ?thesis by simp
qed

section \<open>Jumping to the next and the previous uncleared transaction\<close>

lemma map_int_upt: "map int [a..<b] = [int a..int b - 1]"
proof (rule nth_equalityI)
  show "length (map int [a..<b]) = length [int a..int b - 1]" by auto
next
  fix k assume "k < length (map int [a..<b])"
  then have "k < b - a" by simp
  then show "map int [a..<b] ! k = [int a..int b - 1] ! k" by simp
qed

lemma find_append_cases:
  "find P (xs @ ys) = (case find P xs of None \<Rightarrow> find P ys | Some x \<Rightarrow> Some x)"
  by (induction xs) simp_all

lemma position_nat: "j < n \<Longrightarrow> position n (int j) = Some j"
  by (simp add: position_def)

lemma first_uncleared_find:
  assumes "\<forall>j \<in> set js. j < length (transactions l)"
  shows "first_uncleared l (map int js) =
           Inr (map_option int (find (\<lambda>j. \<not> cleared (deref l (transactions l ! j))) js))"
  using assms
  by (induction js) (simp_all add: py_index_def position_nat)

lemma circular_forward:
  assumes "i < n"
  shows "[Suc i..<n] @ [0..<Suc i] = map (\<lambda>s. (i + 1 + s) mod n) [0..<n]"
proof (rule nth_equalityI)
  show "length ([Suc i..<n] @ [0..<Suc i]) = length (map (\<lambda>s. (i + 1 + s) mod n) [0..<n])"
    using assms by simp
next
  fix k assume "k < length ([Suc i..<n] @ [0..<Suc i])"
  then have k: "k < n" using assms by simp
  show "([Suc i..<n] @ [0..<Suc i]) ! k = map (\<lambda>s. (i + 1 + s) mod n) [0..<n] ! k"
  proof (cases "k < n - Suc i")
    case True
    then show ?thesis using k by (simp add: nth_append)
  next
    case False
    then have "n \<le> i + 1 + k" by simp
    moreover have "i + 1 + k < n + n" using k assms by simp
    ultimately have "(i + 1 + k) mod n = i + 1 + k - n"
      by (simp add: le_mod_geq)
    moreover have "([Suc i..<n] @ [0..<Suc i]) ! k = k - (n - Suc i)"
      using k False assms by (simp add: nth_append del: upt_Suc)
    moreover have "k - (n - Suc i) = i + 1 + k - n"
      using False assms by arith
    ultimately show ?thesis using k by simp
  qed
qed

lemma circular_backward:
  assumes "i < n"
  shows "rev [0..<i] @ rev [i..<n] = map (\<lambda>s. (i + n - 1 - s) mod n) [0..<n]"
proof (rule nth_equalityI)
  show "length (rev [0..<i] @ rev [i..<n]) = length (map (\<lambda>s. (i + n - 1 - s) mod n) [0..<n])"
    using assms by simp
next
  fix k assume "k < length (rev [0..<i] @ rev [i..<n])"
  then have k: "k < n" using assms by simp
  show "(rev [0..<i] @ rev [i..<n]) ! k = map (\<lambda>s. (i + n - 1 - s) mod n) [0..<n] ! k"
  proof (cases "k < i")
    case True
    then have "n \<le> i + n - 1 - k" by simp
    moreover have "i + n - 1 - k < n + n" using assms by simp
    ultimately have "(i + n - 1 - k) mod n = i + n - 1 - k - n"
      by (simp add: le_mod_geq)
    then show ?thesis using k True by (simp add: nth_append rev_nth)
  next
    case False
    then have "i + n - 1 - k < n" using assms by simp
    then show ?thesis using k False assms by (simp add: nth_append rev_nth)
  qed
qed

lemma jump_next_find:
  assumes "idx st = int i" and "i < length (txns st)"
  shows "jump_next_uncleared st =
     Inr (case find (\<lambda>j. \<not> cleared (deref (ledger st) (txns st ! j)))
                 ([Suc i..<length (txns st)] @ [0..<Suc i]) of
            None \<Rightarrow> st
          | Some j \<Rightarrow> st\<lparr>idx := int j, scroll := int j\<rparr>)"
proof -
  let ?n = "length (txns st)"
  have "[int i + 1..int ?n - 1] = map int [Suc i..<?n]"
    using map_int_upt [of "Suc i" ?n] by (simp add: add.commute)
  then have r1: "py_range (idx st + 1) (int ?n) = map int [Suc i..<?n]"
    by (simp add: py_range_def assms(1))
  have "[0..int i] = map int [0..<Suc i]"
    using map_int_upt [of 0 "Suc i"] by simp
  then have r2: "py_range 0 (idx st + 1) = map int [0..<Suc i]"
    by (simp add: py_range_def assms(1))
  have f1: "first_uncleared (ledger st) (map int [Suc i..<?n]) =
      Inr (map_option int (find (\<lambda>j. \<not> cleared (deref (ledger st) (txns st ! j))) [Suc i..<?n]))"
    using first_uncleared_find [of "[Suc i..<?n]" "ledger st"] by (simp add: txns_def)
  have f2: "first_uncleared (ledger st) (map int [0..<Suc i]) =
      Inr (map_option int (find (\<lambda>j. \<not> cleared (deref (ledger st) (txns st ! j))) [0..<Suc i]))"
    using first_uncleared_find [of "[0..<Suc i]" "ledger st"] assms(2) by (simp add: txns_def)
  show ?thesis
    unfolding jump_next_uncleared_def r1 r2 f1 f2 find_append_cases
    by (simp add: idx_set_def split: option.split)
qed

lemma jump_prev_find:
  assumes "idx st = int i" and "i < length (txns st)"
  shows "jump_prev_uncleared st =
     Inr (case find (\<lambda>j. \<not> cleared (deref (ledger st) (txns st ! j)))
                 (rev [0..<i] @ rev [i..<length (txns st)]) of
            None \<Rightarrow> st
          | Some j \<Rightarrow> st\<lparr>idx := int j, scroll := int j\<rparr>)"
proof -
  let ?n = "length (txns st)"
  have "[0..int i - 1] = map int [0..<i]"
    using map_int_upt [of 0 i] by simp
  then have r1: "py_range_down (idx st - 1) (- 1) = map int (rev [0..<i])"
    by (simp add: py_range_down_def rev_map assms(1))
  have "[int i..int ?n - 1] = map int [i..<?n]"
    using map_int_upt [of i ?n] by simp
  then have r2: "py_range_down (int ?n - 1) (idx st - 1) = map int (rev [i..<?n])"
    by (simp add: py_range_down_def rev_map assms(1))
  have f1: "first_uncleared (ledger st) (map int (rev [0..<i])) =
      Inr (map_option int (find (\<lambda>j. \<not> cleared (deref (ledger st) (txns st ! j))) (rev [0..<i])))"
    using first_uncleared_find [of "rev [0..<i]" "ledger st"] assms(2) by (simp add: txns_def)
  have f2: "first_uncleared (ledger st) (map int (rev [i..<?n])) =
      Inr (map_option int (find (\<lambda>j. \<not> cleared (deref (ledger st) (txns st ! j))) (rev [i..<?n])))"
    using first_uncleared_find [of "rev [i..<?n]" "ledger st"] by (simp add: txns_def)
  show ?thesis
    unfolding jump_prev_uncleared_def r1 r2 f1 f2 find_append_cases
    by (simp add: idx_set_def split: option.split)
qed

lemma idx_after_find:
  assumes "idx st = int i"
  shows "idx (case find P (xs @ [i]) of
                None \<Rightarrow> st | Some j \<Rightarrow> st\<lparr>idx := int j, scroll := int j\<rparr>)
         = (case find P xs of None \<Rightarrow> idx st | Some j \<Rightarrow> int j)"
  using assms by (cases "find P xs") (simp_all add: find_append_cases)

lemma jump_next_cursor:
  assumes "idx st = int i" and "i < length (txns st)"
  shows "\<exists>st'. jump_next_uncleared st = Inr st'
           \<and> idx st' = (case find (\<lambda>j. \<not> cleared (deref (ledger st) (txns st ! j)))
                               ([Suc i..<length (txns st)] @ [0..<i]) of
                          None \<Rightarrow> idx st | Some j \<Rightarrow> int j)"
proof -
  let ?P = "\<lambda>j. \<not> cleared (deref (ledger st) (txns st ! j))"
  let ?A = "[Suc i..<length (txns st)] @ [0..<i]"
  define st' where "st' = (case find ?P (?A @ [i]) of
                             None \<Rightarrow> st | Some j \<Rightarrow> st\<lparr>idx := int j, scroll := int j\<rparr>)"
  have e: "[Suc i..<length (txns st)] @ [0..<Suc i] = ?A @ [i]" by simp
  have "jump_next_uncleared st = Inr st'"
    unfolding st'_def e [symmetric] by (rule jump_next_find [OF assms])
  moreover have "idx st' = (case find ?P ?A of None \<Rightarrow> idx st | Some j \<Rightarrow> int j)"
    unfolding st'_def by (rule idx_after_find [OF assms(1)])
  ultimately show ?thesis by blast
qed

lemma jump_prev_cursor:
  assumes "idx st = int i" and "i < length (txns st)"
  shows "\<exists>st'. jump_prev_uncleared st = Inr st'
           \<and> idx st' = (case find (\<lambda>j. \<not> cleared (deref (ledger st) (txns st ! j)))
                               (rev [0..<i] @ rev [Suc i..<length (txns st)]) of
                          None \<Rightarrow> idx st | Some j \<Rightarrow> int j)"
proof -
  let ?P = "\<lambda>j. \<not> cleared (deref (ledger st) (txns st ! j))"
  let ?A = "rev [0..<i] @ rev [Suc i..<length (txns st)]"
  define st' where "st' = (case find ?P (?A @ [i]) of
                             None \<Rightarrow> st | Some j \<Rightarrow> st\<lparr>idx := int j, scroll := int j\<rparr>)"
  have "[i..<length (txns st)] = i # [Suc i..<length (txns st)]"
    using assms(2) by (rule upt_conv_Cons)
  then have e: "rev [0..<i] @ rev [i..<length (txns st)] = ?A @ [i]"
    by simp
  have "jump_prev_uncleared st = Inr st'"
    unfolding st'_def e [symmetric] by (rule jump_prev_find [OF assms])
  moreover have "idx st' = (case find ?P ?A of None \<Rightarrow> idx st | Some j \<Rightarrow> int j)"
    unfolding st'_def by (rule idx_after_find [OF assms(1)])
  ultimately show ?thesis by blast
qed

lemma find_upt_least:
  assumes "find P [0..<m] = Some j"
  shows "P j \<and> j < m \<and> (\<forall>k<j. \<not> P k)"
proof -
  from assms obtain k where k: "k < length [0..<m]" "P ([0..<m] ! k)" "j = [0..<m] ! k"
    "\<forall>q<k. \<not> P ([0..<m] ! q)"
    unfolding find_Some_iff by blast
  then have "j = k" and "k < m" by simp_all
  moreover have "\<forall>q<k. \<not> P q"
    using k(4) \<open>k < m\<close> by (auto simp del: upt_Suc)
  ultimately show ?thesis using k(2) by simp
qed

lemma find_rev_upt_greatest:
  assumes "find P (rev [a..<b]) = Some j"
  shows "P j \<and> a \<le> j \<and> j < b \<and> (\<forall>k. j < k \<and> k < b \<longrightarrow> \<not> P k)"
proof -
  from assms obtain k where k: "k < length (rev [a..<b])" "P (rev [a..<b] ! k)"
    "j = rev [a..<b] ! k" "\<forall>q<k. \<not> P (rev [a..<b] ! q)"
    unfolding find_Some_iff by blast
  have kl: "k < b - a" using k(1) by simp
  have nth: "rev [a..<b] ! q = b - 1 - q" if "q < b - a" for q
    using that by (simp add: rev_nth)
  have j: "j = b - 1 - k" using k(3) nth [OF kl] by simp
  have "\<not> P m" if "j < m" "m < b" for m
  proof -
    have q: "b - 1 - m < k" using that j kl by arith
    then have "b - 1 - m < b - a" using kl by simp
    from nth [OF this] have "rev [a..<b] ! (b - 1 - m) = m" using that by simp
    with k(4) q show ?thesis by metis
  qed
  moreover have "P j" using k(2) k(3) by simp
  moreover have "a \<le> j" "j < b" using j kl by arith+
  ultimately show ?thesis by blast
qed

text \<open>
  C6. On a ledger that is not empty, with the cursor on row \<open>i\<close> of \<open>n\<close>:
  the jump to the next uncleared transaction examines the rows \<open>i + 1\<close>, ...,
  \<open>n - 1\<close>, then \<open>0\<close>, ..., \<open>i\<close>, that is row \<open>(i + 1 + s) mod n\<close> at step \<open>s\<close>: it
  starts after the cursor, wraps once, and meets every row exactly once, the
  cursor's own row last. The jump to the previous one examines \<open>i - 1\<close>, ...,
  \<open>0\<close>, then \<open>n - 1\<close>, ..., \<open>i\<close>. Either moves the cursor to the first row it
  finds that is not cleared and sets the scroll offset to that row; when every
  row is cleared the session is unchanged. The cursor therefore ends where a
  scan that leaves its own row out would put it: on the first uncleared row
  among the others, and where it was when there is none. Both return, never
  raise, and so
  from the last uncleared row the jump forward lands on the first uncleared
  row, and from the first uncleared row the jump backward lands on the last.
\<close>

theorem jump_uncleared_spec:
  assumes "idx st = int i" and "i < length (txns st)"
  shows "(let n = length (txns st); unc = (\<lambda>j. \<not> cleared (deref (ledger st) (txns st ! j))) in
      jump_next_uncleared st =
        Inr (case find unc ([Suc i..<n] @ [0..<Suc i]) of
               None \<Rightarrow> st | Some j \<Rightarrow> st\<lparr>idx := int j, scroll := int j\<rparr>)
    \<and> jump_prev_uncleared st =
        Inr (case find unc (rev [0..<i] @ rev [i..<n]) of
               None \<Rightarrow> st | Some j \<Rightarrow> st\<lparr>idx := int j, scroll := int j\<rparr>)
    \<and> [Suc i..<n] @ [0..<Suc i] = map (\<lambda>s. (i + 1 + s) mod n) [0..<n]
    \<and> rev [0..<i] @ rev [i..<n] = map (\<lambda>s. (i + n - 1 - s) mod n) [0..<n]
    \<and> (\<exists>st'. jump_next_uncleared st = Inr st'
           \<and> idx st' = (case find unc ([Suc i..<n] @ [0..<i]) of
                          None \<Rightarrow> idx st | Some j \<Rightarrow> int j))
    \<and> (\<exists>st'. jump_prev_uncleared st = Inr st'
           \<and> idx st' = (case find unc (rev [0..<i] @ rev [Suc i..<n]) of
                          None \<Rightarrow> idx st | Some j \<Rightarrow> int j))
    \<and> ((\<forall>j<n. \<not> unc j) \<longrightarrow> jump_next_uncleared st = Inr st \<and> jump_prev_uncleared st = Inr st)
    \<and> (unc i \<and> (\<forall>j. i < j \<and> j < n \<longrightarrow> \<not> unc j) \<longrightarrow>
          (\<exists>j. jump_next_uncleared st = Inr (st\<lparr>idx := int j, scroll := int j\<rparr>)
               \<and> unc j \<and> (\<forall>m<j. \<not> unc m)))
    \<and> (unc i \<and> (\<forall>j<i. \<not> unc j) \<longrightarrow>
          (\<exists>j<n. jump_prev_uncleared st = Inr (st\<lparr>idx := int j, scroll := int j\<rparr>)
               \<and> unc j \<and> (\<forall>m. j < m \<and> m < n \<longrightarrow> \<not> unc m))))"
proof -
  define n where "n = length (txns st)"
  define unc where "unc = (\<lambda>j. \<not> cleared (deref (ledger st) (txns st ! j)))"
  have lt: "i < n" using assms(2) by (simp add: n_def)
  have nx: "jump_next_uncleared st =
        Inr (case find unc ([Suc i..<n] @ [0..<Suc i]) of
               None \<Rightarrow> st | Some j \<Rightarrow> st\<lparr>idx := int j, scroll := int j\<rparr>)"
    unfolding n_def unc_def by (rule jump_next_find [OF assms])
  have pv: "jump_prev_uncleared st =
        Inr (case find unc (rev [0..<i] @ rev [i..<n]) of
               None \<Rightarrow> st | Some j \<Rightarrow> st\<lparr>idx := int j, scroll := int j\<rparr>)"
    unfolding n_def unc_def by (rule jump_prev_find [OF assms])
  note cf = circular_forward [OF lt] and cb = circular_backward [OF lt]
  have xn: "\<exists>st'. jump_next_uncleared st = Inr st'
           \<and> idx st' = (case find unc ([Suc i..<n] @ [0..<i]) of
                          None \<Rightarrow> idx st | Some j \<Rightarrow> int j)"
    unfolding n_def unc_def by (rule jump_next_cursor [OF assms])
  have xp: "\<exists>st'. jump_prev_uncleared st = Inr st'
           \<and> idx st' = (case find unc (rev [0..<i] @ rev [Suc i..<n]) of
                          None \<Rightarrow> idx st | Some j \<Rightarrow> int j)"
    unfolding n_def unc_def by (rule jump_prev_cursor [OF assms])
  have none: "jump_next_uncleared st = Inr st \<and> jump_prev_uncleared st = Inr st"
    if "\<forall>j<n. \<not> unc j"
  proof -
    have "find unc ([Suc i..<n] @ [0..<Suc i]) = None"
      using that lt unfolding find_None_iff by auto
    moreover have "find unc (rev [0..<i] @ rev [i..<n]) = None"
      using that lt unfolding find_None_iff by auto
    ultimately show ?thesis using nx pv by simp
  qed
  have wrap_next: "\<exists>j. jump_next_uncleared st = Inr (st\<lparr>idx := int j, scroll := int j\<rparr>)
               \<and> unc j \<and> (\<forall>m<j. \<not> unc m)"
    if "unc i \<and> (\<forall>j. i < j \<and> j < n \<longrightarrow> \<not> unc j)"
  proof -
    have a: "find unc [Suc i..<n] = None"
      using that unfolding find_None_iff by auto
    have "find unc [0..<Suc i] \<noteq> None"
      using that unfolding find_None_iff by auto
    then obtain j where j: "find unc [0..<Suc i] = Some j" by blast
    from find_upt_least [OF j] have "unc j \<and> (\<forall>m<j. \<not> unc m)" by blast
    moreover have "jump_next_uncleared st = Inr (st\<lparr>idx := int j, scroll := int j\<rparr>)"
      using nx a j by (simp add: find_append_cases)
    ultimately show ?thesis by blast
  qed
  have wrap_prev: "\<exists>j<n. jump_prev_uncleared st = Inr (st\<lparr>idx := int j, scroll := int j\<rparr>)
               \<and> unc j \<and> (\<forall>m. j < m \<and> m < n \<longrightarrow> \<not> unc m)"
    if "unc i \<and> (\<forall>j<i. \<not> unc j)"
  proof -
    have a: "find unc (rev [0..<i]) = None"
      using that unfolding find_None_iff by auto
    have "find unc (rev [i..<n]) \<noteq> None"
      using that lt unfolding find_None_iff by auto
    then obtain j where j: "find unc (rev [i..<n]) = Some j" by blast
    from find_rev_upt_greatest [OF j]
    have "unc j \<and> j < n \<and> (\<forall>m. j < m \<and> m < n \<longrightarrow> \<not> unc m)" by blast
    moreover have "jump_prev_uncleared st = Inr (st\<lparr>idx := int j, scroll := int j\<rparr>)"
      using pv a j by (simp add: find_append_cases)
    ultimately show ?thesis by blast
  qed
  from nx pv cf cb xn xp none wrap_next wrap_prev show ?thesis
    unfolding Let_def n_def [symmetric] unc_def [symmetric] by blast
qed

theorem jump_uncleared_spec_witness:
  "idx sample_session = int 2 \<and> 2 < length (txns sample_session)
   \<and> jump_next_uncleared sample_session = Inr (sample_session\<lparr>idx := 0, scroll := 0\<rparr>)
   \<and> jump_prev_uncleared sample_session = Inr (sample_session\<lparr>idx := 0, scroll := 0\<rparr>)"
proof -
  have i: "idx sample_session = int 2" by (simp add: sample_session_def)
  have n: "2 < length (txns sample_session)" by code_simp
  note s = jump_uncleared_spec [OF i n, unfolded Let_def]
  have a: "(case find (\<lambda>j. \<not> cleared (deref (ledger sample_session) (txns sample_session ! j)))
                  ([Suc 2..<length (txns sample_session)] @ [0..<Suc 2]) of
             None \<Rightarrow> sample_session
           | Some j \<Rightarrow> sample_session\<lparr>idx := int j, scroll := int j\<rparr>)
         = sample_session\<lparr>idx := 0, scroll := 0\<rparr>"
    by code_simp
  have b: "(case find (\<lambda>j. \<not> cleared (deref (ledger sample_session) (txns sample_session ! j)))
                  (rev [0..<2] @ rev [2..<length (txns sample_session)]) of
             None \<Rightarrow> sample_session
           | Some j \<Rightarrow> sample_session\<lparr>idx := int j, scroll := int j\<rparr>)
         = sample_session\<lparr>idx := 0, scroll := 0\<rparr>"
    by code_simp
  from s a have "jump_next_uncleared sample_session = Inr (sample_session\<lparr>idx := 0, scroll := 0\<rparr>)"
    by simp
  moreover from s b
  have "jump_prev_uncleared sample_session = Inr (sample_session\<lparr>idx := 0, scroll := 0\<rparr>)"
    by simp
  ultimately show ?thesis using i n by blast
qed

section \<open>Find\<close>

lemma py_index_nat: "j < length xs \<Longrightarrow> py_index xs (int j) = Inr (xs ! j)"
  by (simp add: py_index_def position_nat)

lemma py_index_empty: "py_index [] i = Inl IndexError"
  by (simp add: py_index_def position_def)

lemma find_loop_wrapped:
  assumes "s \<le> length (txns st)"
  shows "find_loop hit st (int s) True =
     Inr (case find (\<lambda>j. hit (deref (ledger st) (txns st ! j))) [s..<length (txns st)] of
            None \<Rightarrow> st | Some j \<Rightarrow> st\<lparr>idx := int j, scroll := int j\<rparr>)"
  using assms
proof (induction "length (txns st) - s" arbitrary: s)
  case 0
  then have "s = length (txns st)" by simp
  then show ?case by (subst find_loop.simps) simp
next
  case (Suc k)
  then have lt: "s < length (txns st)" by simp
  have ih: "find_loop hit st (int s + 1) True =
     Inr (case find (\<lambda>j. hit (deref (ledger st) (txns st ! j))) [Suc s..<length (txns st)] of
            None \<Rightarrow> st | Some j \<Rightarrow> st\<lparr>idx := int j, scroll := int j\<rparr>)"
    using Suc.hyps(1) [of "Suc s"] Suc.hyps(2) lt by (simp add: add.commute)
  show ?case
    using lt ih
    by (subst find_loop.simps) (simp add: py_index_nat upt_conv_Cons idx_set_def)
qed

lemma find_loop_unwrapped:
  assumes "s \<le> length (txns st)" and "txns st \<noteq> []"
  shows "find_loop hit st (int s) False =
     Inr (case find (\<lambda>j. hit (deref (ledger st) (txns st ! j)))
                 ([s..<length (txns st)] @ [0..<length (txns st)]) of
            None \<Rightarrow> st | Some j \<Rightarrow> st\<lparr>idx := int j, scroll := int j\<rparr>)"
  using assms(1)
proof (induction "length (txns st) - s" arbitrary: s)
  case 0
  then have s: "s = length (txns st)" by simp
  have pos: "0 < length (txns st)" using assms(2) by simp
  have w: "find_loop hit st 1 True =
     Inr (case find (\<lambda>j. hit (deref (ledger st) (txns st ! j))) [Suc 0..<length (txns st)] of
            None \<Rightarrow> st | Some j \<Rightarrow> st\<lparr>idx := int j, scroll := int j\<rparr>)"
    using find_loop_wrapped [of "Suc 0" st hit] pos by simp
  have z: "py_index (txns st) 0 = Inr (txns st ! 0)"
    using py_index_nat [of 0 "txns st"] pos by simp
  have u: "[0..<length (txns st)] = 0 # [Suc 0..<length (txns st)]"
    using pos by (simp add: upt_conv_Cons)
  have "[s..<length (txns st)] = []" using s by simp
  then show ?case
    using w z s
    by (subst find_loop.simps) (simp add: idx_set_def u)
next
  case (Suc k)
  then have lt: "s < length (txns st)" by simp
  have ih: "find_loop hit st (int s + 1) False =
     Inr (case find (\<lambda>j. hit (deref (ledger st) (txns st ! j)))
                 ([Suc s..<length (txns st)] @ [0..<length (txns st)]) of
            None \<Rightarrow> st | Some j \<Rightarrow> st\<lparr>idx := int j, scroll := int j\<rparr>)"
    using Suc.hyps(1) [of "Suc s"] Suc.hyps(2) lt by (simp add: add.commute)
  show ?case
    using lt ih
    by (subst find_loop.simps) (simp add: py_index_nat upt_conv_Cons idx_set_def)
qed

lemma find_loop_empty:
  assumes "txns st = []"
  shows "find_loop hit st start False = Inl IndexError"
  using assms by (subst find_loop.simps) (simp add: py_index_empty)

text \<open>
  C10. The loop of \<open>find_next\<close> ends for every search term and every session
  (\<open>find_loop\<close> is a total function). On a ledger that is not empty, starting
  at row \<open>s\<close>, the row after the cursor, it returns, and has examined the rows
  \<open>s\<close>, ..., \<open>n - 1\<close> and then, after its one wrap, \<open>0\<close>, ..., \<open>n - 1\<close>: the cursor
  and the scroll offset go to the first of them that matches, and nothing
  changes when none does. On an empty ledger it is no such no-op: it wraps to
  \<open>0\<close> and raises \<open>IndexError\<close> at \<open>txns[0]\<close>.
\<close>

theorem find_next_spec:
  "(txns st = [] \<longrightarrow> find_next contains search st = Inl IndexError)
   \<and> (\<forall>s. txns st \<noteq> [] \<and> idx st + 1 = int s \<and> s \<le> length (txns st) \<longrightarrow>
         find_next contains search st =
           Inr (case find (\<lambda>j. contains search (deref (ledger st) (txns st ! j)))
                       ([s..<length (txns st)] @ [0..<length (txns st)]) of
                  None \<Rightarrow> st | Some j \<Rightarrow> st\<lparr>idx := int j, scroll := int j\<rparr>))"
proof (intro conjI allI impI)
  assume "txns st = []"
  then show "find_next contains search st = Inl IndexError"
    by (simp add: find_next_def find_loop_empty)
next
  fix s assume a: "txns st \<noteq> [] \<and> idx st + 1 = int s \<and> s \<le> length (txns st)"
  then have "s \<le> length (txns st)" and "txns st \<noteq> []" by simp_all
  from find_loop_unwrapped [OF this, of "contains search"] a
  show "find_next contains search st =
           Inr (case find (\<lambda>j. contains search (deref (ledger st) (txns st ! j)))
                       ([s..<length (txns st)] @ [0..<length (txns st)]) of
                  None \<Rightarrow> st | Some j \<Rightarrow> st\<lparr>idx := int j, scroll := int j\<rparr>)"
    by (simp add: find_next_def)
qed

theorem find_next_spec_witness:
  "txns empty_session = []
   \<and> find_next (\<lambda>s t. s = description t) ''rent'' empty_session = Inl IndexError
   \<and> txns sample_session \<noteq> [] \<and> idx sample_session + 1 = int 3
   \<and> 3 \<le> length (txns sample_session)
   \<and> find_next (\<lambda>s t. s = description t) ''rent'' sample_session =
        Inr (sample_session\<lparr>idx := 0, scroll := 0\<rparr>)
   \<and> find_next (\<lambda>s t. s = description t) ''void'' sample_session = Inr sample_session"
proof -
  have e: "txns empty_session = []" by code_simp
  have n: "txns sample_session \<noteq> [] \<and> idx sample_session + 1 = int 3
           \<and> 3 \<le> length (txns sample_session)"
    by code_simp
  note s = find_next_spec [of _ "\<lambda>s t. s = description t"]
  have a: "(case find (\<lambda>j. ''rent'' = description (deref (ledger sample_session) (txns sample_session ! j)))
                  ([3..<length (txns sample_session)] @ [0..<length (txns sample_session)]) of
             None \<Rightarrow> sample_session
           | Some j \<Rightarrow> sample_session\<lparr>idx := int j, scroll := int j\<rparr>)
         = sample_session\<lparr>idx := 0, scroll := 0\<rparr>"
    by code_simp
  have b: "(case find (\<lambda>j. ''void'' = description (deref (ledger sample_session) (txns sample_session ! j)))
                  ([3..<length (txns sample_session)] @ [0..<length (txns sample_session)]) of
             None \<Rightarrow> sample_session
           | Some j \<Rightarrow> sample_session\<lparr>idx := int j, scroll := int j\<rparr>)
         = sample_session"
    by code_simp
  from s [of empty_session "''rent''"] e
  have "find_next (\<lambda>s t. s = description t) ''rent'' empty_session = Inl IndexError" by blast
  moreover from s [of sample_session "''rent''"] n a
  have "find_next (\<lambda>s t. s = description t) ''rent'' sample_session =
        Inr (sample_session\<lparr>idx := 0, scroll := 0\<rparr>)"
    by simp
  moreover from s [of sample_session "''void''"] n b
  have "find_next (\<lambda>s t. s = description t) ''void'' sample_session = Inr sample_session"
    by simp
  ultimately show ?thesis using e n by blast
qed

section \<open>Editing a transaction\<close>

lemma strip_space: "strip '' '' = []"
  by (simp add: strip_def is_space_def)

lemma strip_empty: "strip [] = []"
  by (simp add: strip_def)

lemma edit_field_blank: "edit_field today dec f [] t = t"
  by (simp add: edit_field_def)

lemma strip_never_space: "strip r \<noteq> '' ''"
proof
  assume "strip r = '' ''"
  then have "rev (strip r) = '' ''" by simp
  then have d: "dropWhile is_space (rev (dropWhile is_space r)) = '' ''"
    by (simp add: strip_def)
  then have "dropWhile is_space (rev (dropWhile is_space r)) \<noteq> []" by simp
  then have "\<not> is_space (hd (dropWhile is_space (rev (dropWhile is_space r))))"
    by (rule hd_dropWhile)
  with d show False by (simp add: is_space_def)
qed

lemma today_if_dot_dot: "today_if_dot today ''.'' = today"
  by (simp add: today_if_dot_def strip_def is_space_def)

lemma edit_transaction_fields:
  "edit_transaction today dec [r1, r2, r3, r4] t =
     t\<lparr>date := (if strip r1 = [] then date t else today_if_dot today (strip r1)),
       description := (if strip r2 = [] then description t else strip r2),
       category := (if strip r3 = [] then category t else Some (strip r3)),
       amount := (if strip r4 = [] then amount t else dec (strip r4))\<rparr>"
  using strip_never_space [of r3]
  by (simp add: edit_transaction_def edit_field_def)

lemma edit_transaction_category:
  "category (edit_transaction today dec [r1, r2, r3, r4] t) =
     (if strip r3 = [] then category t else Some (strip r3))"
  using strip_never_space [of r3]
  by (simp add: edit_transaction_def edit_field_def)

text \<open>
  C7 at the response of a single space to the category prompt, every other
  response empty. The response is stripped before it is tested, so the test
  \<open>s == " "\<close> of the category branch never holds: the response is empty after
  \<open>strip\<close>, and the transaction, its category included, is as before.
\<close>

theorem edit_transaction_space_keeps_category:
  "edit_transaction today dec ['''', '''', '' '', ''''] t = t
   \<and> edit_transaction today dec
         ['''', '''', '' '', ''''] (t\<lparr>category := Some ''Food''\<rparr>) \<noteq> t\<lparr>category := None\<rparr>"
proof -
  have e: "edit_transaction today dec ['''', '''', '' '', ''''] u = u" for u
    by (simp add: edit_transaction_def strip_space strip_empty edit_field_blank)
  have "category (t\<lparr>category := Some ''Food''\<rparr>) \<noteq> category (t\<lparr>category := None\<rparr>)"
    by simp
  then have "t\<lparr>category := Some ''Food''\<rparr> \<noteq> t\<lparr>category := None\<rparr>"
    by metis
  then show ?thesis by (simp only: e simp_thms)
qed

section \<open>Moving the cursor\<close>

lemma key_bottom:
  "curses_main today dec contains resp (ord CHR ''b'') st =
     Inr (Continue (st\<lparr>idx := int (length (txns st)) - 1\<rparr>))"
  by (simp add: curses_main_def ord_def KEY_DOWN_def KEY_UP_def)

lemma key_top:
  "curses_main today dec contains resp (ord CHR ''t'') st = Inr (Continue (st\<lparr>idx := 0\<rparr>))"
  by (simp add: curses_main_def ord_def KEY_DOWN_def KEY_UP_def)

lemma key_down:
  assumes "ch = KEY_DOWN \<or> ch = ord CHR ''j''"
  shows "curses_main today dec contains resp ch st =
     Inr (Continue (if idx st < int (length (txns st)) - 1 then st\<lparr>idx := idx st + 1\<rparr> else st))"
  using assms by (elim disjE) (simp_all add: curses_main_def ord_def KEY_DOWN_def KEY_UP_def)

lemma key_up:
  assumes "ch = KEY_UP \<or> ch = ord CHR ''k''"
  shows "curses_main today dec contains resp ch st =
     Inr (Continue (if idx st > 0 then st\<lparr>idx := idx st - 1\<rparr> else st))"
  using assms by (elim disjE) (simp_all add: curses_main_def ord_def KEY_DOWN_def KEY_UP_def)

lemma cursor_moves_in_range:
  assumes "0 \<le> idx st" and "idx st < int (length (txns st))"
    and "ch = KEY_DOWN \<or> ch = ord CHR ''j'' \<or> ch = KEY_UP \<or> ch = ord CHR ''k''
         \<or> ch = ord CHR ''t'' \<or> ch = ord CHR ''b''"
  shows "\<exists>st'. curses_main today dec contains resp ch st = Inr (Continue st')
           \<and> 0 \<le> idx st' \<and> idx st' < int (length (txns st'))
           \<and> ledger st' = ledger st"
proof -
  have ne: "transactions (ledger st) \<noteq> []" using assms(1,2) by (auto simp: txns_def)
  consider "ch = KEY_DOWN \<or> ch = ord CHR ''j''" | "ch = KEY_UP \<or> ch = ord CHR ''k''"
    | "ch = ord CHR ''t''" | "ch = ord CHR ''b''"
    using assms(3) by blast
  then show ?thesis
  proof cases
    case 1
    show ?thesis using assms(1,2) by (simp add: key_down [OF 1] txns_def)
  next
    case 2
    show ?thesis using assms(1,2) ne by (simp add: key_up [OF 2] txns_def)
  next
    case 3
    show ?thesis using assms(1,2) by (auto simp: 3 key_top txns_def)
  next
    case 4
    show ?thesis using assms(1,2) ne by (simp add: 4 key_bottom txns_def)
  qed
qed

lemma cursor_moves_empty:
  assumes "txns st = []" and "idx st = 0"
    and "ch = KEY_DOWN \<or> ch = ord CHR ''j'' \<or> ch = KEY_UP \<or> ch = ord CHR ''k''
         \<or> ch = ord CHR ''t''"
  shows "curses_main today dec contains resp ch st = Inr (Continue st)"
proof -
  have same: "st\<lparr>idx := 0\<rparr> = st" using assms(2) by (cases st) simp
  consider "ch = KEY_DOWN \<or> ch = ord CHR ''j''" | "ch = KEY_UP \<or> ch = ord CHR ''k''"
    | "ch = ord CHR ''t''"
    using assms(3) by blast
  then show ?thesis
  proof cases
    case 1
    show ?thesis using assms(1,2) by (simp add: key_down [OF 1])
  next
    case 2
    show ?thesis using assms(1,2) by (simp add: key_up [OF 2])
  next
    case 3
    show ?thesis by (simp add: 3 key_top same)
  qed
qed

text \<open>
  C8 at the empty ledger. With no transaction and the cursor at \<open>0\<close>, the key
  \<open>b\<close> sets the cursor to \<open>len(txns) - 1\<close>, which is \<open>- 1\<close>: the command is not a
  no-op there, unlike the keys for up, down and top.
\<close>

theorem jump_to_bottom_empty_ledger:
  "txns empty_session = [] \<and> idx empty_session = 0
   \<and> curses_main today dec contains resp (ord CHR ''b'') empty_session =
        Inr (Continue (empty_session\<lparr>idx := - 1\<rparr>))"
proof -
  have "txns empty_session = []" by code_simp
  moreover have "idx empty_session = 0" by (simp add: empty_session_def)
  ultimately show ?thesis by (simp add: key_bottom)
qed

section \<open>Category totals\<close>
























end
